theory Spec2Isabelle
  imports Complex_Main "HOL-Library.AList"
begin

section \<open>A shallow embedding of \<open>search_engine.py\<close>\<close>

text \<open>
  Conventions of the embedding.
  \<^item> A Python \<open>dict\<close> is an association list in insertion order; assignment
    \<open>d[k] = v\<close> is \<open>AList.update\<close> (an existing key keeps its position, a new key goes
    to the end), lookup is \<open>map_of\<close>.
  \<^item> A \<open>defaultdict\<close> is such a list together with the read \<open>dd_getitem\<close>, which
    inserts the default under a missing key, as Python does.
  \<^item> Every exception the source can raise is a value \<open>Inl err\<close>.
  \<^item> Python's \<open>float\<close> scores are idealised as \<open>real\<close> numbers: rounding is not
    modelled.
  \<^item> A \<open>char\<close> is a code point below 256. On those, \<open>str.lower\<close> followed by the
    pattern \<open>[a-zA-Z]+\<close> only ever sees the 52 ASCII letters.
  \<^item> A Python \<open>set\<close> of document names is a duplicate-free list; its iteration
    order (hash order in CPython) is fixed here to the order of the first posting list.
  \<^item> The directory listing, file reading and the HTML parser are external: they are
    the fields of \<open>html_env\<close>.
\<close>

datatype py_error = KeyError | IndexError | ZeroDivisionError | AttributeError | TypeError | OSError

subsection \<open>Stop words and tokenisation\<close>

definition STOP_WORDS :: "string list" where
  "STOP_WORDS =
    [''a'',''an'',''the'',''and'',''or'',''but'',''in'',''on'',''at'',''to'',''for'',''with'',''by'',''of'',
     ''is'',''was'',''were'',''am'',''are'',''be'',''been'',''being'',''have'',''has'',''had'',''do'',
     ''does'',''did'',''will'',''would'',''shall'',''should'',''may'',''might'',''must'',''can'',
     ''could'',''i'',''you'',''he'',''she'',''it'',''we'',''they'',''them'',''their'',''his'',''her'',
     ''its'',''our'',''your'',''my'',''mine'',''yours'',''ours'',''this'',''that'',''these'',''those'',
     ''from'',''as'',''if'',''then'',''else'',''when'',''where'',''why'',''how'',''all'',''any'',''both'',
     ''each'',''few'',''more'',''most'',''some'',''such'',''up'',''down'',''over'',''under'',''again'',
     ''further'',''off'',''out'',''into'',''onto'',''about'',''between'',''during'',''before'',
     ''after'',''above'',''below'',''through'',''while'',''against'',''nor'',''only'',''own'',
     ''same'',''too'',''very'',''also'']"

definition upper_letters :: string where
  "upper_letters = ''ABCDEFGHIJKLMNOPQRSTUVWXYZ''"

definition lower_letters :: string where
  "lower_letters = ''abcdefghijklmnopqrstuvwxyz''"

definition lower_char :: "char \<Rightarrow> char" where
  "lower_char c = (case map_of (zip upper_letters lower_letters) c of None \<Rightarrow> c | Some l \<Rightarrow> l)"

definition is_alpha :: "char \<Rightarrow> bool" where
  "is_alpha c \<longleftrightarrow> c \<in> set lower_letters \<or> c \<in> set upper_letters"

text \<open>\<open>re.findall(r"[a-zA-Z]+", s)\<close>: the maximal runs of letters, left to right;
  \<open>cur\<close> is the run being read.\<close>

fun findall_alpha :: "string \<Rightarrow> string \<Rightarrow> string list" where
  "findall_alpha cur [] = (if cur = [] then [] else [cur])"
| "findall_alpha cur (c # cs) =
     (if is_alpha c then findall_alpha (cur @ [c]) cs
      else (if cur = [] then [] else [cur]) @ findall_alpha [] cs)"

text \<open>Lines 70-72 and 174-175: lower-case, tokenise, drop the stop words.\<close>

definition normalize :: "string \<Rightarrow> string list" where
  "normalize s = filter (\<lambda>w. w \<notin> set STOP_WORDS) (findall_alpha [] (map lower_char s))"

subsection \<open>Trie\<close>

datatype TrieNode = TrieNode (children: "(char \<times> TrieNode) list") (occurrence_index: "nat option")

fun trie_insert :: "TrieNode \<Rightarrow> string \<Rightarrow> nat \<Rightarrow> TrieNode" where
  "trie_insert (TrieNode cs oi) [] occ_idx = TrieNode cs (Some occ_idx)"
| "trie_insert (TrieNode cs oi) (c # w) occ_idx =
     (let cs' = (if map_of cs c = None then AList.update c (TrieNode [] None) cs else cs)
      in case map_of cs' c of
           None \<Rightarrow> TrieNode cs' oi
         | Some child \<Rightarrow> TrieNode (AList.update c (trie_insert child w occ_idx) cs') oi)"

fun trie_search :: "TrieNode \<Rightarrow> string \<Rightarrow> nat option" where
  "trie_search (TrieNode cs oi) [] = oi"
| "trie_search (TrieNode cs oi) (c # w) =
     (case map_of cs c of None \<Rightarrow> None | Some child \<Rightarrow> trie_search child w)"

subsection \<open>The crawler\<close>

record page =
  title :: string
  words :: "string list"

record WebCrawler =
  pages :: "(string \<times> page) list"
  links :: "(string \<times> string list) list"

text \<open>The external collaborators: \<open>os.listdir\<close> (which raises on a missing directory),
  opening and reading a file (\<open>None\<close> when anything is raised), and what BeautifulSoup
  yields for a document: \<open>soup.title\<close> and its \<open>.string\<close> (each may be \<open>None\<close>), the
  visible text, and the \<open>href\<close> values of the anchors in document order.\<close>

record html_env =
  listdir :: "py_error + string list"
  read_file :: "string \<Rightarrow> string option"
  soup_title :: "string \<Rightarrow> string option option"
  soup_text :: "string \<Rightarrow> string"
  soup_hrefs :: "string \<Rightarrow> string list"

definition endswith :: "string \<Rightarrow> string \<Rightarrow> bool" where
  "endswith s suffix \<longleftrightarrow> length suffix \<le> length s \<and> drop (length s - length suffix) s = suffix"

definition is_space :: "char \<Rightarrow> bool" where
  "is_space c \<longleftrightarrow> (let n = (of_char c :: nat) in
     (9 \<le> n \<and> n \<le> 13) \<or> (28 \<le> n \<and> n \<le> 32) \<or> n = 133 \<or> n = 160)"

definition strip :: "string \<Rightarrow> string" where
  "strip s = rev (dropWhile is_space (rev (dropWhile is_space s)))"

definition extract_page :: "html_env \<Rightarrow> string \<Rightarrow> string \<Rightarrow> py_error + (string \<times> string list \<times> string list)" where
  "extract_page env html filename =
     (case (case soup_title env html of
              None \<Rightarrow> Inr filename
            | Some None \<Rightarrow> Inl AttributeError
            | Some (Some s) \<Rightarrow> Inr (strip s)) of
        Inl err \<Rightarrow> Inl err
      | Inr ttl \<Rightarrow>
          Inr (ttl, normalize (soup_text env html),
               filter (\<lambda>href. endswith href ''.html'') (soup_hrefs env html)))"

text \<open>\<open>self.links[file].append(link)\<close> on a \<open>defaultdict(list)\<close>.\<close>

definition links_append :: "string \<Rightarrow> string \<Rightarrow> (string \<times> string list) list \<Rightarrow> (string \<times> string list) list" where
  "links_append file link ls =
     AList.update file ((case map_of ls file of None \<Rightarrow> [] | Some outs \<Rightarrow> outs) @ [link]) ls"

text \<open>Lines 111-114, the loop over the outgoing links; the state is the link table and
  the queue.\<close>

fun follow_links :: "string list \<Rightarrow> string set \<Rightarrow> string \<Rightarrow> string list \<Rightarrow>
    (string \<times> string list) list \<times> string list \<Rightarrow> (string \<times> string list) list \<times> string list" where
  "follow_links all_files visited file [] st = st"
| "follow_links all_files visited file (link # outgoing) (ls, queue) =
     follow_links all_files visited file outgoing
       (links_append file link ls,
        if link \<notin> visited \<and> link \<in> set all_files then queue @ [link] else queue)"

lemma snd_follow_links:
  "snd (follow_links all_files visited file outgoing st) =
     snd st @ filter (\<lambda>l. l \<notin> visited \<and> l \<in> set all_files) outgoing"
  by (induction outgoing arbitrary: st) auto

text \<open>Lines 92-114, the \<open>while queue\<close> loop.\<close>

function crawl_loop :: "html_env \<Rightarrow> string list \<Rightarrow> string list \<Rightarrow> string set \<Rightarrow> WebCrawler
    \<Rightarrow> py_error + WebCrawler" where
  "crawl_loop env all_files [] visited c = Inr c"
| "crawl_loop env all_files (file # queue) visited c =
     (if file \<in> visited then crawl_loop env all_files queue visited c
      else case read_file env file of
             None \<Rightarrow> crawl_loop env all_files queue (insert file visited) c
           | Some html \<Rightarrow>
               (case extract_page env html file of
                  Inl err \<Rightarrow> Inl err
                | Inr res \<Rightarrow>
                    crawl_loop env all_files
                      (snd (follow_links all_files (insert file visited) file (snd (snd res))
                              (links c, queue)))
                      (insert file visited)
                      (c\<lparr>pages := AList.update file \<lparr>title = fst res, words = fst (snd res)\<rparr> (pages c),
                         links := fst (follow_links all_files (insert file visited) file (snd (snd res))
                              (links c, queue))\<rparr>)))"
  by pat_completeness auto

definition pending :: "string list \<Rightarrow> string list \<Rightarrow> string set \<Rightarrow> string set" where
  "pending all_files queue visited = (set all_files \<union> set queue) - visited"

lemma pending_skip: "card (pending all_files queue visited) \<le> card (pending all_files (f # queue) visited)"
  by (rule card_mono) (auto simp: pending_def)

lemma pending_visit:
  assumes "file \<notin> visited" and "set queue' \<subseteq> set queue \<union> set all_files"
  shows "card (pending all_files queue' (insert file visited)) < card (pending all_files (file # queue) visited)"
proof (rule psubset_card_mono)
  show "finite (pending all_files (file # queue) visited)"
    by (simp add: pending_def)
  have "file \<in> pending all_files (file # queue) visited"
    using assms(1) by (simp add: pending_def)
  moreover have "file \<notin> pending all_files queue' (insert file visited)"
    by (simp add: pending_def)
  moreover have "pending all_files queue' (insert file visited) \<subseteq> pending all_files (file # queue) visited"
    using assms(2) by (auto simp: pending_def)
  ultimately show "pending all_files queue' (insert file visited) \<subset> pending all_files (file # queue) visited"
    by blast
qed

termination crawl_loop
proof (relation "measures [\<lambda>(env, all_files, queue, visited, c). card (pending all_files queue visited),
                           \<lambda>(env, all_files, queue, visited, c). length queue]", goal_cases)
  case 1
  show ?case by simp
next
  case 2
  show ?case using pending_skip by (auto simp: le_less)
next
  case 3
  then show ?case by (auto intro!: pending_visit)
next
  case 4
  then show ?case by (auto simp: snd_follow_links intro!: pending_visit)
qed

text \<open>Lines 83-116.\<close>

definition crawl :: "html_env \<Rightarrow> WebCrawler \<Rightarrow> py_error + WebCrawler" where
  "crawl env c =
     (case listdir env of
        Inl err \<Rightarrow> Inl err
      | Inr names \<Rightarrow>
          (let all_files = filter (\<lambda>f. endswith f ''.html'') names
           in crawl_loop env all_files all_files {} c))"

subsection \<open>The search engine: state and index construction\<close>

record SearchEngine =
  ranking_mode :: string
  crawler :: WebCrawler
  trie :: TrieNode
  inverted_index :: "(string \<times> nat) list list"
  word_to_index :: "(string \<times> nat) list"
  document_lengths :: "(string \<times> nat) list"
  incoming_links :: "(string \<times> nat) list"

text \<open>Lines 122-132, \<open>__init__\<close>.\<close>

definition init_engine :: "string \<Rightarrow> SearchEngine" where
  "init_engine mode =
     \<lparr>ranking_mode = mode, crawler = \<lparr>pages = [], links = []\<rparr>, trie = TrieNode [] None,
      inverted_index = [], word_to_index = [], document_lengths = [], incoming_links = []\<rparr>"

text \<open>Reading \<open>d[k]\<close> on a \<open>defaultdict(int)\<close>: a missing key is inserted with value 0.\<close>

definition dd_getitem :: "(string \<times> nat) list \<Rightarrow> string \<Rightarrow> nat \<times> (string \<times> nat) list" where
  "dd_getitem d k = (case map_of d k of Some v \<Rightarrow> (v, d) | None \<Rightarrow> (0, AList.update k 0 d))"

text \<open>Line 141, \<open>self.incoming_links[dest] += 1\<close>.\<close>

definition incr_incoming :: "string \<Rightarrow> (string \<times> nat) list \<Rightarrow> (string \<times> nat) list" where
  "incr_incoming dest inc = (let r = dd_getitem inc dest in AList.update dest (fst r + 1) (snd r))"

text \<open>Lines 139-141.\<close>

definition count_incoming :: "(string \<times> string list) list \<Rightarrow> (string \<times> nat) list \<Rightarrow> (string \<times> nat) list" where
  "count_incoming ls inc = fold (\<lambda>entry acc. fold incr_incoming (snd entry) acc) ls inc"

text \<open>\<open>collections.Counter\<close> of a list: the counts, keyed in order of first occurrence.\<close>

definition counter_add :: "string \<Rightarrow> (string \<times> nat) list \<Rightarrow> (string \<times> nat) list" where
  "counter_add w cnt = AList.update w (case map_of cnt w of None \<Rightarrow> 1 | Some n \<Rightarrow> n + 1) cnt"

definition Counter :: "string list \<Rightarrow> (string \<times> nat) list" where
  "Counter ws = fold counter_add ws []"

text \<open>A \<open>for\<close> loop whose body may raise.\<close>

fun for_each :: "('a \<Rightarrow> 's \<Rightarrow> py_error + 's) \<Rightarrow> 'a list \<Rightarrow> 's \<Rightarrow> py_error + 's" where
  "for_each body [] s = Inr s"
| "for_each body (x # xs) s = (case body x s of Inl err \<Rightarrow> Inl err | Inr s' \<Rightarrow> for_each body xs s')"

text \<open>Lines 149-154, the body of the loop over \<open>word_freq.items()\<close>.\<close>

definition index_word :: "string \<Rightarrow> string \<times> nat \<Rightarrow> SearchEngine \<Rightarrow> py_error + SearchEngine" where
  "index_word file item e =
     (let e1 = (if map_of (word_to_index e) (fst item) = None
                then e\<lparr>word_to_index := AList.update (fst item) (length (inverted_index e)) (word_to_index e),
                       inverted_index := inverted_index e @ [[]]\<rparr>
                else e)
      in case map_of (word_to_index e1) (fst item) of
           None \<Rightarrow> Inl KeyError
         | Some idx \<Rightarrow>
             if idx < length (inverted_index e1)
             then Inr (e1\<lparr>inverted_index :=
                            (inverted_index e1)[idx := AList.update file (snd item) (inverted_index e1 ! idx)]\<rparr>)
             else Inl IndexError)"

text \<open>Lines 145-154, the body of the loop over \<open>self.crawler.pages.items()\<close>.\<close>

definition index_page :: "string \<times> page \<Rightarrow> SearchEngine \<Rightarrow> py_error + SearchEngine" where
  "index_page fd e =
     (let word_freq = Counter (words (snd fd))
      in for_each (index_word (fst fd)) word_freq
           (e\<lparr>document_lengths :=
                 AList.update (fst fd) (sum_list (map snd word_freq)) (document_lengths e)\<rparr>))"

text \<open>Lines 157-158.\<close>

definition fill_trie :: "(string \<times> nat) list \<Rightarrow> TrieNode \<Rightarrow> TrieNode" where
  "fill_trie w2i t = fold (\<lambda>entry acc. trie_insert acc (fst entry) (snd entry)) w2i t"

text \<open>Lines 135-160, \<open>build_index\<close>.\<close>

definition build_index :: "html_env \<Rightarrow> SearchEngine \<Rightarrow> py_error + SearchEngine" where
  "build_index env e =
     (case crawl env (crawler e) of
        Inl err \<Rightarrow> Inl err
      | Inr c \<Rightarrow>
          (case for_each index_page (pages c)
                  (e\<lparr>crawler := c, incoming_links := count_incoming (links c) (incoming_links e)\<rparr>) of
             Inl err \<Rightarrow> Inl err
           | Inr e' \<Rightarrow> Inr (e'\<lparr>trie := fill_trie (word_to_index e') (trie e')\<rparr>)))"

subsection \<open>Scoring and search\<close>

text \<open>Lines 163-170.\<close>

definition compute_score :: "SearchEngine \<Rightarrow> string \<Rightarrow> string \<Rightarrow> nat \<Rightarrow> nat \<Rightarrow> nat \<Rightarrow> py_error + real" where
  "compute_score e word doc freq N df =
     (if ranking_mode e = ''simple'' then Inr (real freq)
      else case map_of (document_lengths e) doc of
             None \<Rightarrow> Inl KeyError
           | Some L \<Rightarrow>
               if L = 0 then Inl ZeroDivisionError
               else Inr (real freq / real L * (ln ((1 + real N) / (1 + real df)) + 1)))"

text \<open>Lines 180-185: \<open>Inr None\<close> is the early \<open>return []\<close> on an unknown term.\<close>

fun collect_doc_sets :: "SearchEngine \<Rightarrow> string list \<Rightarrow> string list list \<Rightarrow> py_error + string list list option" where
  "collect_doc_sets e [] doc_sets = Inr (Some doc_sets)"
| "collect_doc_sets e (t # ts) doc_sets =
     (case trie_search (trie e) t of
        None \<Rightarrow> Inr None
      | Some idx \<Rightarrow>
          if idx < length (inverted_index e)
          then collect_doc_sets e ts (doc_sets @ [remdups (map fst (inverted_index e ! idx))])
          else Inl IndexError)"

text \<open>Line 188, \<open>set.intersection(*doc_sets)\<close>; with no argument it raises.\<close>

fun intersection :: "string list list \<Rightarrow> py_error + string list" where
  "intersection [] = Inl TypeError"
| "intersection (d # ds) = Inr (filter (\<lambda>doc. \<forall>s \<in> set ds. doc \<in> set s) d)"

text \<open>Lines 198-203, the loop over the terms for one document. The read
  \<open>occurrences[doc]\<close> is a \<open>defaultdict\<close> read, so the posting list is threaded through.\<close>

fun score_terms :: "string \<Rightarrow> nat \<Rightarrow> string list \<Rightarrow> SearchEngine \<Rightarrow> real \<Rightarrow> py_error + (real \<times> SearchEngine)" where
  "score_terms doc N [] e total_score = Inr (total_score, e)"
| "score_terms doc N (t # ts) e total_score =
     (case trie_search (trie e) t of
        None \<Rightarrow> Inl TypeError
      | Some idx \<Rightarrow>
          if idx < length (inverted_index e)
          then (let occurrences = inverted_index e ! idx;
                    df = length occurrences;
                    r = dd_getitem occurrences doc;
                    e' = e\<lparr>inverted_index := (inverted_index e)[idx := snd r]\<rparr>
                in case compute_score e' t doc (fst r) N df of
                     Inl err \<Rightarrow> Inl err
                   | Inr sc \<Rightarrow> score_terms doc N ts e' (total_score + sc))
          else Inl IndexError)"

text \<open>Lines 196-207, the loop over the matching documents.\<close>

fun rank_docs :: "nat \<Rightarrow> string list \<Rightarrow> string list \<Rightarrow> SearchEngine \<Rightarrow> (string \<times> real) list
    \<Rightarrow> py_error + ((string \<times> real) list \<times> SearchEngine)" where
  "rank_docs N terms [] e scores = Inr (scores, e)"
| "rank_docs N terms (doc # docs) e scores =
     (case score_terms doc N terms e 0 of
        Inl err \<Rightarrow> Inl err
      | Inr res \<Rightarrow>
          (let r = dd_getitem (incoming_links (snd res)) doc;
               e' = (snd res)\<lparr>incoming_links := snd r\<rparr>
           in rank_docs N terms docs e' (AList.update doc (fst res + 0.1 * real (fst r)) scores)))"

text \<open>Line 209: a stable sort on the score with \<open>reverse=True\<close>.\<close>

definition sorted_by_score :: "(string \<times> real) list \<Rightarrow> (string \<times> real) list" where
  "sorted_by_score items = rev (sort_key snd (rev items))"

text \<open>Lines 173-209, \<open>search\<close>: the result list and the engine as the call leaves it.\<close>

definition search :: "SearchEngine \<Rightarrow> string \<Rightarrow> py_error + ((string \<times> real) list \<times> SearchEngine)" where
  "search e query =
     (let terms = normalize query
      in if terms = [] then Inr ([], e)
         else case collect_doc_sets e terms [] of
                Inl err \<Rightarrow> Inl err
              | Inr None \<Rightarrow> Inr ([], e)
              | Inr (Some doc_sets) \<Rightarrow>
                  (case intersection doc_sets of
                     Inl err \<Rightarrow> Inl err
                   | Inr matching_docs \<Rightarrow>
                       if matching_docs = [] then Inr ([], e)
                       else case rank_docs (length (pages (crawler e))) terms matching_docs e [] of
                              Inl err \<Rightarrow> Inl err
                            | Inr res \<Rightarrow> Inr (sorted_by_score (fst res), snd res)))"

subsection \<open>Notions used to state the properties\<close>

text \<open>\<open>InboundLinkCounts[d]\<close> as the search reads it: 0 when no link to \<open>d\<close> was recorded.\<close>

definition inbound :: "(string \<times> nat) list \<Rightarrow> string \<Rightarrow> nat" where
  "inbound inc d = (case map_of inc d of None \<Rightarrow> 0 | Some n \<Rightarrow> n)"

text \<open>The number of edges \<open>src \<rightarrow> d\<close> in the crawler's link table, repetitions counted.\<close>

definition edges_into :: "(string \<times> string list) list \<Rightarrow> string \<Rightarrow> nat" where
  "edges_into ls d = sum_list (map (\<lambda>entry. count_list (snd entry) d) ls)"

text \<open>The count the index holds for word \<open>w\<close> in document \<open>f\<close>, if any.\<close>

definition freq_of :: "SearchEngine \<Rightarrow> string \<Rightarrow> string \<Rightarrow> nat option" where
  "freq_of e w f =
     (case map_of (word_to_index e) w of None \<Rightarrow> None | Some i \<Rightarrow> map_of (inverted_index e ! i) f)"

text \<open>Well-formedness of \<open>word_to_index\<close> against \<open>inverted_index\<close>.\<close>

definition index_inv :: "SearchEngine \<Rightarrow> bool" where
  "index_inv e \<longleftrightarrow>
     distinct (map fst (word_to_index e)) \<and>
     length (word_to_index e) = length (inverted_index e) \<and>
     (\<forall>w i. map_of (word_to_index e) w = Some i \<longrightarrow> i < length (inverted_index e)) \<and>
     (\<forall>w w' i. map_of (word_to_index e) w = Some i \<and> map_of (word_to_index e) w' = Some i \<longrightarrow> w = w') \<and>
     (\<forall>p \<in> set (inverted_index e). distinct (map fst p))"

text \<open>The fields that indexing never touches.\<close>

definition index_frame :: "SearchEngine \<Rightarrow> SearchEngine \<Rightarrow> bool" where
  "index_frame e e' \<longleftrightarrow>
     ranking_mode e' = ranking_mode e \<and> crawler e' = crawler e \<and> trie e' = trie e \<and>
     incoming_links e' = incoming_links e"

text \<open>What indexing one list of \<open>(word, count)\<close> items of document \<open>fname\<close> does to the
  engine: the items are recorded under \<open>fname\<close>, nothing else moves.\<close>

definition words_effect :: "string \<Rightarrow> (string \<times> nat) list \<Rightarrow> SearchEngine \<Rightarrow> SearchEngine \<Rightarrow> bool" where
  "words_effect fname items e e' \<longleftrightarrow>
     index_inv e' \<and> index_frame e e' \<and>
     document_lengths e' = document_lengths e \<and>
     fst ` set (word_to_index e') = fst ` set (word_to_index e) \<union> fst ` set items \<and>
     (\<forall>w' f'. freq_of e' w' f' =
        (if f' = fname then (case map_of items w' of None \<Rightarrow> freq_of e w' f' | Some c \<Rightarrow> Some c)
         else freq_of e w' f'))"

text \<open>The raw occurrence count of a word in a page, if it occurs.\<close>

definition page_freq :: "page \<Rightarrow> string \<Rightarrow> nat option" where
  "page_freq pg w = (if w \<in> set (words pg) then Some (count_list (words pg) w) else None)"

text \<open>What indexing the pages \<open>ps\<close> does to the engine.\<close>

definition pages_effect :: "(string \<times> page) list \<Rightarrow> SearchEngine \<Rightarrow> SearchEngine \<Rightarrow> bool" where
  "pages_effect ps e e' \<longleftrightarrow>
     index_inv e' \<and> index_frame e e' \<and>
     (\<forall>f. map_of (document_lengths e') f =
            (case map_of ps f of None \<Rightarrow> map_of (document_lengths e) f
                               | Some pg \<Rightarrow> Some (length (words pg)))) \<and>
     fst ` set (word_to_index e') = fst ` set (word_to_index e) \<union> (\<Union>p \<in> set ps. set (words (snd p))) \<and>
     (\<forall>w f. freq_of e' w f =
        (case map_of ps f of
           None \<Rightarrow> freq_of e w f
         | Some pg \<Rightarrow> (case page_freq pg w of None \<Rightarrow> freq_of e w f | Some c \<Rightarrow> Some c)))"

text \<open>What \<open>build_index\<close> establishes and every later \<open>search\<close> relies on: the trie agrees
  with \<open>word_to_index\<close>, the posting lists hold exactly the raw counts of the crawled
  pages, the length table holds their token counts, the vocabulary is the set of their
  words, and the inbound counts are the edge counts of the link table.\<close>

definition index_ok :: "SearchEngine \<Rightarrow> bool" where
  "index_ok e \<longleftrightarrow>
     index_inv e \<and> distinct (map fst (pages (crawler e))) \<and>
     (\<forall>w. trie_search (trie e) w = map_of (word_to_index e) w) \<and>
     (\<forall>w f. freq_of e w f =
        (case map_of (pages (crawler e)) f of None \<Rightarrow> None | Some pg \<Rightarrow> page_freq pg w)) \<and>
     (\<forall>f. map_of (document_lengths e) f =
        (case map_of (pages (crawler e)) f of None \<Rightarrow> None | Some pg \<Rightarrow> Some (length (words pg)))) \<and>
     fst ` set (word_to_index e) = (\<Union>p \<in> set (pages (crawler e)). set (words (snd p))) \<and>
     (\<forall>d. inbound (incoming_links e) d = edges_into (links (crawler e)) d)"

text \<open>The number of crawled documents that contain a term.\<close>

definition doc_freq :: "WebCrawler \<Rightarrow> string \<Rightarrow> nat" where
  "doc_freq c t = length (filter (\<lambda>p. t \<in> set (words (snd p))) (pages c))"

text \<open>A small collection: three readable pages, one unreadable page and one file that is
  not a page. \<open>a.html\<close> links twice to \<open>b.html\<close> and once to a file that does not
  exist; nothing links to \<open>c.html\<close>. The content of a file is identified with its name.\<close>

definition demo_env :: html_env where
  "demo_env =
     \<lparr>listdir = Inr [''a.html'', ''b.html'', ''notes.txt'', ''c.html'', ''d.html''],
      read_file = (\<lambda>f. if f = ''d.html'' then None else Some f),
      soup_title = (\<lambda>h. if h = ''a.html'' then Some (Some '' Ants '')
                         else if h = ''b.html'' then None else Some (Some ''Dogs'')),
      soup_text = (\<lambda>h. if h = ''a.html'' then ''Ant ant bee''
                        else if h = ''b.html'' then ''the cat and an ANT'' else ''a dog''),
      soup_hrefs = (\<lambda>h. if h = ''a.html'' then [''b.html'', ''http://e.org/'', ''b.html'', ''x.html'']
                         else if h = ''b.html'' then [''a.html''] else [])\<rparr>"

text \<open>What \<open>crawl\<close> and \<open>build_index\<close> make of it.\<close>

definition demo_crawler :: WebCrawler where
  "demo_crawler =
     \<lparr>pages = [(''a.html'', \<lparr>title = ''Ants'', words = [''ant'', ''ant'', ''bee'']\<rparr>),
               (''b.html'', \<lparr>title = ''b.html'', words = [''cat'', ''ant'']\<rparr>),
               (''c.html'', \<lparr>title = ''Dogs'', words = [''dog'']\<rparr>)],
      links = [(''a.html'', [''b.html'', ''b.html'', ''x.html'']), (''b.html'', [''a.html''])]\<rparr>"

definition demo_trie :: TrieNode where
  "demo_trie =
     TrieNode
       [(CHR ''a'', TrieNode [(CHR ''n'', TrieNode [(CHR ''t'', TrieNode [] (Some 0))] None)] None),
        (CHR ''b'', TrieNode [(CHR ''e'', TrieNode [(CHR ''e'', TrieNode [] (Some 1))] None)] None),
        (CHR ''c'', TrieNode [(CHR ''a'', TrieNode [(CHR ''t'', TrieNode [] (Some 2))] None)] None),
        (CHR ''d'', TrieNode [(CHR ''o'', TrieNode [(CHR ''g'', TrieNode [] (Some 3))] None)] None)]
       None"

definition demo_engine :: SearchEngine where
  "demo_engine =
     \<lparr>ranking_mode = ''tf-idf'', crawler = demo_crawler, trie = demo_trie,
      inverted_index = [[(''a.html'', 2), (''b.html'', 1)], [(''a.html'', 1)], [(''b.html'', 1)],
                        [(''c.html'', 1)]],
      word_to_index = [(''ant'', 0), (''bee'', 1), (''cat'', 2), (''dog'', 3)],
      document_lengths = [(''a.html'', 3), (''b.html'', 2), (''c.html'', 1)],
      incoming_links = [(''b.html'', 2), (''x.html'', 1), (''a.html'', 1)]\<rparr>"

section \<open>Properties of the building blocks\<close>

subsection \<open>Trie lookup after insertion\<close>

lemma trie_search_empty: "trie_search (TrieNode [] None) w = None"
  by (cases w) simp_all

lemma trie_search_insert:
  "trie_search (trie_insert t w i) w' = (if w' = w then Some i else trie_search t w')"
proof (induction w arbitrary: t w')
  case Nil
  show ?case by (cases t; cases w') simp_all
next
  case (Cons c w)
  obtain cs oi where t: "t = TrieNode cs oi" by (cases t)
  show ?case
  proof (cases w')
    case Nil
    then show ?thesis
      by (simp add: t Let_def AList.update_conv' split: option.splits)
  next
    case (Cons c' w'')
    then show ?thesis
      using Cons.IH
      by (auto simp: t Let_def AList.update_conv' trie_search_empty split: option.splits)
  qed
qed

lemma fill_trie_Nil: "fill_trie [] t = t"
  by (simp add: fill_trie_def)

lemma fill_trie_Cons: "fill_trie ((w, i) # w2i) t = fill_trie w2i (trie_insert t w i)"
  by (simp add: fill_trie_def)

lemma trie_search_fill:
  "distinct (map fst w2i) \<Longrightarrow>
   trie_search (fill_trie w2i t) w = (case map_of w2i w of None \<Rightarrow> trie_search t w | Some i \<Rightarrow> Some i)"
proof (induction w2i arbitrary: t)
  case Nil
  show ?case by (simp add: fill_trie_Nil)
next
  case (Cons entry w2i)
  obtain a b where entry: "entry = (a, b)" by (cases entry)
  have notin: "map_of w2i a = None"
    using Cons.prems by (simp add: entry map_of_eq_None_iff)
  have IH: "trie_search (fill_trie w2i (trie_insert t a b)) w =
      (case map_of w2i w of None \<Rightarrow> trie_search (trie_insert t a b) w | Some i \<Rightarrow> Some i)"
    using Cons.IH Cons.prems by simp
  show ?case
    using notin by (simp add: entry fill_trie_Cons IH trie_search_insert split: option.splits)
qed

subsection \<open>Counter\<close>

lemma map_of_counter_add:
  "map_of (counter_add w cnt) w' =
     (if w' = w then Some (case map_of cnt w of None \<Rightarrow> 1 | Some n \<Rightarrow> n + 1) else map_of cnt w')"
  by (simp add: counter_add_def AList.update_conv')

lemma map_of_fold_counter_add:
  "map_of (fold counter_add ws cnt) w =
     (if w \<in> set ws then Some (count_list ws w + (case map_of cnt w of None \<Rightarrow> 0 | Some n \<Rightarrow> n))
      else map_of cnt w)"
  by (induction ws arbitrary: cnt) (auto simp: map_of_counter_add split: option.splits)

lemma map_of_Counter:
  "map_of (Counter ws) w = (if w \<in> set ws then Some (count_list ws w) else None)"
  by (simp add: Counter_def map_of_fold_counter_add)

lemma distinct_fold_counter_add:
  "distinct (map fst cnt) \<Longrightarrow> distinct (map fst (fold counter_add ws cnt))"
  by (induction ws arbitrary: cnt) (simp_all add: counter_add_def AList.distinct_update)

lemma distinct_Counter: "distinct (map fst (Counter ws))"
  by (simp add: Counter_def distinct_fold_counter_add)

lemma keys_Counter: "fst ` set (Counter ws) = set ws"
proof -
  have "dom (map_of (Counter ws)) = set ws"
    by (auto simp: map_of_Counter split: if_splits)
  then show ?thesis by (simp add: dom_map_of_conv_image_fst)
qed

lemma sum_counter_add: "sum_list (map snd (counter_add w cnt)) = Suc (sum_list (map snd cnt))"
  unfolding counter_add_def
  by (induction cnt) (auto split: option.splits)

lemma sum_fold_counter_add:
  "sum_list (map snd (fold counter_add ws cnt)) = length ws + sum_list (map snd cnt)"
  by (induction ws arbitrary: cnt) (simp_all add: sum_counter_add)

lemma sum_Counter: "sum_list (map snd (Counter ws)) = length ws"
  by (simp add: Counter_def sum_fold_counter_add)

subsection \<open>Inbound-link counting\<close>

lemma map_of_incr_incoming:
  "map_of (incr_incoming dest inc) d =
     (if d = dest then Some (inbound inc dest + 1) else map_of inc d)"
  by (auto simp: incr_incoming_def dd_getitem_def inbound_def AList.update_conv' split: option.splits)

lemma map_of_fold_incr_incoming:
  "map_of (fold incr_incoming outs inc) d =
     (if d \<in> set outs then Some (inbound inc d + count_list outs d) else map_of inc d)"
  by (induction outs arbitrary: inc) (auto simp: map_of_incr_incoming inbound_def)

lemma map_of_count_incoming:
  "map_of (count_incoming ls inc) d =
     (if edges_into ls d = 0 then map_of inc d else Some (inbound inc d + edges_into ls d))"
proof (induction ls arbitrary: inc)
  case Nil
  show ?case by (simp add: count_incoming_def edges_into_def)
next
  case (Cons entry ls)
  have step: "count_incoming (entry # ls) inc = count_incoming ls (fold incr_incoming (snd entry) inc)"
    by (simp add: count_incoming_def)
  show ?case
    unfolding step Cons.IH
    by (auto simp: map_of_fold_incr_incoming edges_into_def inbound_def count_list_0_iff)
qed

subsection \<open>Index construction\<close>

lemma length_alist_update:
  "length (AList.update k v al) = (if k \<in> fst ` set al then length al else Suc (length al))"
  by (induction al) auto

lemma index_inv_bound:
  "index_inv e \<Longrightarrow> map_of (word_to_index e) w = Some i \<Longrightarrow> i < length (inverted_index e)"
  unfolding index_inv_def by blast

lemma index_inv_inj:
  "index_inv e \<Longrightarrow> map_of (word_to_index e) w = Some i \<Longrightarrow> map_of (word_to_index e) w' = Some i \<Longrightarrow> w = w'"
  unfolding index_inv_def by blast

lemma index_inv_distinct:
  "index_inv e \<Longrightarrow> p \<in> set (inverted_index e) \<Longrightarrow> distinct (map fst p)"
  unfolding index_inv_def by blast

lemma index_word_known:
  assumes inv: "index_inv e" and known: "map_of (word_to_index e) w = Some i"
  shows "\<exists>ii. index_word fname (w, c) e = Inr (e\<lparr>inverted_index := ii\<rparr>) \<and>
           index_inv (e\<lparr>inverted_index := ii\<rparr>) \<and>
           (\<forall>w' f'. freq_of (e\<lparr>inverted_index := ii\<rparr>) w' f' =
                     (if w' = w \<and> f' = fname then Some c else freq_of e w' f'))"
proof -
  let ?p = "AList.update fname c (inverted_index e ! i)"
  let ?ii = "(inverted_index e)[i := ?p]"
  have i: "i < length (inverted_index e)"
    using inv known by (rule index_inv_bound)
  have run: "index_word fname (w, c) e = Inr (e\<lparr>inverted_index := ?ii\<rparr>)"
    using known i by (simp add: index_word_def)
  have dp: "distinct (map fst ?p)"
    using index_inv_distinct [OF inv, of "inverted_index e ! i"] i
    by (simp add: AList.distinct_update)
  have "\<forall>p \<in> set ?ii. distinct (map fst p)"
    using index_inv_distinct [OF inv] dp set_update_subset_insert [of "inverted_index e" i ?p]
    by blast
  then have inv': "index_inv (e\<lparr>inverted_index := ?ii\<rparr>)"
    using inv by (simp add: index_inv_def)
  have fr: "freq_of (e\<lparr>inverted_index := ?ii\<rparr>) w' f' =
              (if w' = w \<and> f' = fname then Some c else freq_of e w' f')" for w' f'
  proof (cases "map_of (word_to_index e) w'")
    case None
    then show ?thesis using known by (auto simp: freq_of_def)
  next
    case (Some j)
    have "j = i \<longleftrightarrow> w' = w"
      using index_inv_inj [OF inv known, of w'] known Some by auto
    then show ?thesis
      using Some known i by (auto simp: freq_of_def nth_list_update AList.update_conv')
  qed
  show ?thesis using run inv' fr by blast
qed

lemma index_word_new:
  assumes inv: "index_inv e" and new: "map_of (word_to_index e) w = None"
  shows "\<exists>w2i ii. index_word fname (w, c) e = Inr (e\<lparr>word_to_index := w2i, inverted_index := ii\<rparr>) \<and>
           index_inv (e\<lparr>word_to_index := w2i, inverted_index := ii\<rparr>) \<and>
           fst ` set w2i = insert w (fst ` set (word_to_index e)) \<and>
           (\<forall>w' f'. freq_of (e\<lparr>word_to_index := w2i, inverted_index := ii\<rparr>) w' f' =
                     (if w' = w \<and> f' = fname then Some c else freq_of e w' f'))"
proof -
  let ?n = "length (inverted_index e)"
  let ?w2i = "AList.update w ?n (word_to_index e)"
  let ?ii = "(inverted_index e @ [[]])[?n := AList.update fname c []]"
  let ?e' = "e\<lparr>word_to_index := ?w2i, inverted_index := ?ii\<rparr>"
  have notin: "w \<notin> fst ` set (word_to_index e)"
    using new by (simp add: map_of_eq_None_iff)
  have run: "index_word fname (w, c) e = Inr ?e'"
    using new by (simp add: index_word_def AList.update_conv')
  have ii: "?ii = inverted_index e @ [[(fname, c)]]"
    by simp
  have inv': "index_inv ?e'"
    unfolding index_inv_def
  proof (intro conjI allI impI ballI)
    show "distinct (map fst (word_to_index ?e'))"
      using inv by (simp add: index_inv_def AList.distinct_update)
    show "length (word_to_index ?e') = length (inverted_index ?e')"
      using inv notin by (simp add: index_inv_def length_alist_update)
    show "i < length (inverted_index ?e')" if "map_of (word_to_index ?e') w' = Some i" for w' i
      using that index_inv_bound [OF inv, of w' i]
      by (simp add: AList.update_conv' less_Suc_eq split: if_splits)
    show "w1 = w2"
      if "map_of (word_to_index ?e') w1 = Some i \<and> map_of (word_to_index ?e') w2 = Some i" for w1 w2 i
      using that index_inv_inj [OF inv, of w1 i w2] index_inv_bound [OF inv, of w1 i]
        index_inv_bound [OF inv, of w2 i]
      by (simp add: AList.update_conv' split: if_splits)
    show "distinct (map fst p)" if "p \<in> set (inverted_index ?e')" for p
      using that index_inv_distinct [OF inv, of p] by (auto simp: ii)
  qed
  have fr: "freq_of ?e' w' f' = (if w' = w \<and> f' = fname then Some c else freq_of e w' f')" for w' f'
  proof (cases "w' = w")
    case True
    then show ?thesis using new by (simp add: freq_of_def AList.update_conv' nth_append)
  next
    case False
    show ?thesis
    proof (cases "map_of (word_to_index e) w'")
      case None
      then show ?thesis using False by (simp add: freq_of_def AList.update_conv')
    next
      case (Some j)
      then have "j < ?n" using inv by (rule index_inv_bound [rotated])
      then show ?thesis
        using False Some by (simp add: freq_of_def AList.update_conv' nth_append)
    qed
  qed
  have keys: "fst ` set ?w2i = insert w (fst ` set (word_to_index e))"
    by (simp add: AList.dom_update)
  show ?thesis using run inv' fr keys by blast
qed

lemma index_frame_refl: "index_frame e e"
  by (simp add: index_frame_def)

lemma index_frame_trans: "index_frame e e1 \<Longrightarrow> index_frame e1 e2 \<Longrightarrow> index_frame e e2"
  by (simp add: index_frame_def)

lemma words_effectD:
  assumes "words_effect fname items e e'"
  shows "index_inv e'" and "index_frame e e'" and "document_lengths e' = document_lengths e"
    and "fst ` set (word_to_index e') = fst ` set (word_to_index e) \<union> fst ` set items"
    and "freq_of e' w' f' =
        (if f' = fname then (case map_of items w' of None \<Rightarrow> freq_of e w' f' | Some c \<Rightarrow> Some c)
         else freq_of e w' f')"
  using assms unfolding words_effect_def by blast+

lemma index_word_step:
  assumes inv: "index_inv e"
  shows "\<exists>e'. index_word fname (w, c) e = Inr e' \<and> words_effect fname [(w, c)] e e'"
proof (cases "map_of (word_to_index e) w")
  case None
  from index_word_new [OF inv None, of fname c]
  obtain w2i ii where r:
    "index_word fname (w, c) e = Inr (e\<lparr>word_to_index := w2i, inverted_index := ii\<rparr>)"
    "index_inv (e\<lparr>word_to_index := w2i, inverted_index := ii\<rparr>)"
    "fst ` set w2i = insert w (fst ` set (word_to_index e))"
    "\<forall>w' f'. freq_of (e\<lparr>word_to_index := w2i, inverted_index := ii\<rparr>) w' f' =
               (if w' = w \<and> f' = fname then Some c else freq_of e w' f')"
    by blast
  have "words_effect fname [(w, c)] e (e\<lparr>word_to_index := w2i, inverted_index := ii\<rparr>)"
    unfolding words_effect_def
    by (intro conjI allI) (simp_all add: r(2) r(3) r(4) index_frame_def)
  with r(1) show ?thesis by blast
next
  case (Some i)
  from index_word_known [OF inv Some, of fname c]
  obtain ii where r:
    "index_word fname (w, c) e = Inr (e\<lparr>inverted_index := ii\<rparr>)"
    "index_inv (e\<lparr>inverted_index := ii\<rparr>)"
    "\<forall>w' f'. freq_of (e\<lparr>inverted_index := ii\<rparr>) w' f' =
               (if w' = w \<and> f' = fname then Some c else freq_of e w' f')"
    by blast
  have mem: "w \<in> fst ` set (word_to_index e)"
    using map_of_SomeD [OF Some] by (force simp: image_iff)
  have "words_effect fname [(w, c)] e (e\<lparr>inverted_index := ii\<rparr>)"
    unfolding words_effect_def
    by (intro conjI allI) (simp_all add: r(2) r(3) index_frame_def insert_absorb [OF mem])
  with r(1) show ?thesis by blast
qed

lemma words_effect_Nil: "index_inv e \<Longrightarrow> words_effect fname [] e e"
  by (simp add: words_effect_def index_frame_refl)

lemma words_effect_Cons:
  assumes s1: "words_effect fname [(w, c)] e e1" and s2: "words_effect fname items e1 e'"
    and notin: "map_of items w = None"
  shows "words_effect fname ((w, c) # items) e e'"
  unfolding words_effect_def
proof (intro conjI allI)
  show "index_inv e'" by (rule words_effectD(1) [OF s2])
  show "index_frame e e'"
    by (rule index_frame_trans [OF words_effectD(2) [OF s1] words_effectD(2) [OF s2]])
  show "document_lengths e' = document_lengths e"
    by (simp add: words_effectD(3) [OF s1] words_effectD(3) [OF s2])
  show "fst ` set (word_to_index e') = fst ` set (word_to_index e) \<union> fst ` set ((w, c) # items)"
    by (simp add: words_effectD(4) [OF s1] words_effectD(4) [OF s2])
  show "freq_of e' w' f' =
        (if f' = fname then (case map_of ((w, c) # items) w' of None \<Rightarrow> freq_of e w' f' | Some c \<Rightarrow> Some c)
         else freq_of e w' f')" for w' f'
    using notin
    by (simp add: words_effectD(5) [OF s1] words_effectD(5) [OF s2] split: option.splits)
qed

lemma index_words_loop:
  assumes "index_inv e" and "distinct (map fst items)"
  shows "\<exists>e'. for_each (index_word fname) items e = Inr e' \<and> words_effect fname items e e'"
  using assms
proof (induction items arbitrary: e)
  case Nil
  then show ?case by (simp add: words_effect_Nil)
next
  case (Cons item items)
  obtain w c where item: "item = (w, c)" by (cases item)
  from index_word_step [OF Cons.prems(1), of fname w c]
  obtain e1 where e1: "index_word fname (w, c) e = Inr e1" "words_effect fname [(w, c)] e e1"
    by blast
  have d: "distinct (map fst items)" and notin: "map_of items w = None"
    using Cons.prems(2) by (simp_all add: item map_of_eq_None_iff)
  from Cons.IH [OF words_effectD(1) [OF e1(2)] d]
  obtain e' where e': "for_each (index_word fname) items e1 = Inr e'" "words_effect fname items e1 e'"
    by blast
  have run: "for_each (index_word fname) (item # items) e = Inr e'"
    by (simp add: item e1(1) e'(1))
  show ?case
    unfolding item using run words_effect_Cons [OF e1(2) e'(2) notin] by (auto simp: item)
qed

lemma pages_effectD:
  assumes "pages_effect ps e e'"
  shows "index_inv e'" and "index_frame e e'"
    and "map_of (document_lengths e') f =
            (case map_of ps f of None \<Rightarrow> map_of (document_lengths e) f
                               | Some pg \<Rightarrow> Some (length (words pg)))"
    and "fst ` set (word_to_index e') = fst ` set (word_to_index e) \<union> (\<Union>p \<in> set ps. set (words (snd p)))"
    and "freq_of e' w f =
        (case map_of ps f of
           None \<Rightarrow> freq_of e w f
         | Some pg \<Rightarrow> (case page_freq pg w of None \<Rightarrow> freq_of e w f | Some c \<Rightarrow> Some c))"
  using assms unfolding pages_effect_def by blast+

lemma index_page_step:
  assumes inv: "index_inv e"
  shows "\<exists>e'. index_page (f, pg) e = Inr e' \<and> pages_effect [(f, pg)] e e'"
proof -
  let ?e0 = "e\<lparr>document_lengths :=
                 AList.update f (sum_list (map snd (Counter (words pg)))) (document_lengths e)\<rparr>"
  have inv0: "index_inv ?e0"
    using inv by (simp add: index_inv_def)
  have fr0: "freq_of ?e0 = freq_of e"
    by (simp add: freq_of_def fun_eq_iff split: option.splits)
  from index_words_loop [OF inv0 distinct_Counter, of f "words pg"]
  obtain e' where e':
    "for_each (index_word f) (Counter (words pg)) ?e0 = Inr e'"
    "words_effect f (Counter (words pg)) ?e0 e'"
    by blast
  note eff = words_effectD [OF e'(2)]
  have run: "index_page (f, pg) e = Inr e'"
    using e'(1) by (simp add: index_page_def Let_def)
  have "pages_effect [(f, pg)] e e'"
    unfolding pages_effect_def
  proof (intro conjI allI)
    show "index_inv e'" by (rule eff(1))
    show "index_frame e e'" using eff(2) by (simp add: index_frame_def)
    show "map_of (document_lengths e') f' =
            (case map_of [(f, pg)] f' of None \<Rightarrow> map_of (document_lengths e) f'
                               | Some pg \<Rightarrow> Some (length (words pg)))" for f'
      by (simp add: eff(3) AList.update_conv' sum_Counter)
    show "fst ` set (word_to_index e') =
            fst ` set (word_to_index e) \<union> (\<Union>p \<in> set [(f, pg)]. set (words (snd p)))"
      by (simp add: eff(4) keys_Counter)
    show "freq_of e' w f' =
        (case map_of [(f, pg)] f' of
           None \<Rightarrow> freq_of e w f'
         | Some pg \<Rightarrow> (case page_freq pg w of None \<Rightarrow> freq_of e w f' | Some c \<Rightarrow> Some c))" for w f'
      by (simp add: eff(5) fr0 map_of_Counter page_freq_def)
  qed
  with run show ?thesis by blast
qed

lemma pages_effect_Nil: "index_inv e \<Longrightarrow> pages_effect [] e e"
  by (simp add: pages_effect_def index_frame_refl)

lemma pages_effect_Cons:
  assumes s1: "pages_effect [(f, pg)] e e1" and s2: "pages_effect ps e1 e'"
    and notin: "map_of ps f = None"
  shows "pages_effect ((f, pg) # ps) e e'"
  unfolding pages_effect_def
proof (intro conjI allI)
  show "index_inv e'" by (rule pages_effectD(1) [OF s2])
  show "index_frame e e'"
    by (rule index_frame_trans [OF pages_effectD(2) [OF s1] pages_effectD(2) [OF s2]])
  show "map_of (document_lengths e') f' =
            (case map_of ((f, pg) # ps) f' of None \<Rightarrow> map_of (document_lengths e) f'
                               | Some pg \<Rightarrow> Some (length (words pg)))" for f'
    using notin
    by (simp add: pages_effectD(3) [OF s1] pages_effectD(3) [OF s2] split: option.splits)
  show "fst ` set (word_to_index e') =
          fst ` set (word_to_index e) \<union> (\<Union>p \<in> set ((f, pg) # ps). set (words (snd p)))"
    by (auto simp: pages_effectD(4) [OF s1] pages_effectD(4) [OF s2])
  show "freq_of e' w f' =
        (case map_of ((f, pg) # ps) f' of
           None \<Rightarrow> freq_of e w f'
         | Some pg \<Rightarrow> (case page_freq pg w of None \<Rightarrow> freq_of e w f' | Some c \<Rightarrow> Some c))" for w f'
    using notin
    by (simp add: pages_effectD(5) [OF s1] pages_effectD(5) [OF s2] split: option.splits)
qed

lemma index_pages_loop:
  assumes "index_inv e" and "distinct (map fst ps)"
  shows "\<exists>e'. for_each index_page ps e = Inr e' \<and> pages_effect ps e e'"
  using assms
proof (induction ps arbitrary: e)
  case Nil
  then show ?case by (simp add: pages_effect_Nil)
next
  case (Cons p ps)
  obtain f pg where p: "p = (f, pg)" by (cases p)
  from index_page_step [OF Cons.prems(1), of f pg]
  obtain e1 where e1: "index_page (f, pg) e = Inr e1" "pages_effect [(f, pg)] e e1"
    by blast
  have d: "distinct (map fst ps)" and notin: "map_of ps f = None"
    using Cons.prems(2) by (simp_all add: p map_of_eq_None_iff)
  from Cons.IH [OF pages_effectD(1) [OF e1(2)] d]
  obtain e' where e': "for_each index_page ps e1 = Inr e'" "pages_effect ps e1 e'"
    by blast
  have run: "for_each index_page (p # ps) e = Inr e'"
    by (simp add: p e1(1) e'(1))
  show ?case
    using run pages_effect_Cons [OF e1(2) e'(2) notin] by (auto simp: p)
qed

subsection \<open>The crawl\<close>

lemma crawl_loop_distinct:
  "crawl_loop env all_files queue visited c = Inr c' \<Longrightarrow> distinct (map fst (pages c)) \<Longrightarrow>
   distinct (map fst (pages c'))"
proof (induction env all_files queue visited c rule: crawl_loop.induct)
  case (1 env all_files visited c)
  then show ?case by simp
next
  case (2 env all_files f queue visited c)
  show ?case
  proof (cases "f \<in> visited")
    case True
    then show ?thesis using "2.IH"(1) "2.prems" by simp
  next
    case False
    show ?thesis
    proof (cases "read_file env f")
      case None
      then show ?thesis using False "2.IH"(2) "2.prems" by simp
    next
      case (Some html)
      show ?thesis
      proof (cases "extract_page env html f")
        case (Inl err)
        then show ?thesis using False Some "2.prems" by simp
      next
        case (Inr res)
        show ?thesis
          using False Some Inr "2.prems" "2.IH"(3) [OF False Some Inr]
          by (simp add: AList.distinct_update)
      qed
    qed
  qed
qed

lemma crawl_loop_pages:
  "crawl_loop env all_files queue visited c = Inr c' \<Longrightarrow> set queue \<subseteq> set all_files \<Longrightarrow>
   set all_files \<subseteq> visited \<union> set queue \<Longrightarrow>
   fst ` set (pages c') =
     fst ` set (pages c) \<union> {f \<in> set all_files - visited. read_file env f \<noteq> None}"
proof (induction env all_files queue visited c rule: crawl_loop.induct)
  case (1 env all_files visited c)
  then show ?case by auto
next
  case (2 env all_files f queue visited c)
  have fin: "f \<in> set all_files" using "2.prems"(2) by simp
  show ?case
  proof (cases "f \<in> visited")
    case True
    have "fst ` set (pages c') =
        fst ` set (pages c) \<union> {f \<in> set all_files - visited. read_file env f \<noteq> None}"
      using True "2.prems" by (intro "2.IH"(1)) auto
    then show ?thesis .
  next
    case False
    show ?thesis
    proof (cases "read_file env f")
      case None
      have "fst ` set (pages c') =
          fst ` set (pages c) \<union> {g \<in> set all_files - insert f visited. read_file env g \<noteq> None}"
        using False None "2.prems" by (intro "2.IH"(2)) auto
      then show ?thesis using None by auto
    next
      case (Some html)
      show ?thesis
      proof (cases "extract_page env html f")
        case (Inl err)
        then show ?thesis using False Some "2.prems" by simp
      next
        case (Inr res)
        let ?q = "snd (follow_links all_files (insert f visited) f (snd (snd res)) (links c, queue))"
        let ?c = "c\<lparr>pages := AList.update f \<lparr>title = fst res, words = fst (snd res)\<rparr> (pages c),
                     links := fst (follow_links all_files (insert f visited) f (snd (snd res))
                                     (links c, queue))\<rparr>"
        have run: "crawl_loop env all_files ?q (insert f visited) ?c = Inr c'"
          using False Some Inr "2.prems"(1) by simp
        have q1: "set ?q \<subseteq> set all_files"
          using "2.prems"(2) by (auto simp: snd_follow_links)
        have q2: "set all_files \<subseteq> insert f visited \<union> set ?q"
          using "2.prems"(3) by (auto simp: snd_follow_links)
        have "fst ` set (pages c') =
            fst ` set (pages ?c) \<union> {g \<in> set all_files - insert f visited. read_file env g \<noteq> None}"
          by (rule "2.IH"(3) [OF False Some Inr run q1 q2])
        then show ?thesis
          using Some fin False by (auto simp: AList.dom_update)
      qed
    qed
  qed
qed

subsection \<open>The result of \<open>build_index\<close>\<close>

lemma index_okD:
  assumes "index_ok e"
  shows "index_inv e" and "distinct (map fst (pages (crawler e)))"
    and "trie_search (trie e) w = map_of (word_to_index e) w"
    and "freq_of e w f =
        (case map_of (pages (crawler e)) f of None \<Rightarrow> None | Some pg \<Rightarrow> page_freq pg w)"
    and "map_of (document_lengths e) f =
        (case map_of (pages (crawler e)) f of None \<Rightarrow> None | Some pg \<Rightarrow> Some (length (words pg)))"
    and "fst ` set (word_to_index e) = (\<Union>p \<in> set (pages (crawler e)). set (words (snd p)))"
    and "inbound (incoming_links e) d = edges_into (links (crawler e)) d"
  using assms by (simp_all add: index_ok_def)

lemma index_inv_keys: "index_inv e \<Longrightarrow> distinct (map fst (word_to_index e))"
  unfolding index_inv_def by blast

lemma index_inv_init: "index_inv (init_engine mode)"
  by (simp add: index_inv_def init_engine_def)

lemma freq_of_init: "freq_of (init_engine mode) w f = None"
  by (simp add: freq_of_def init_engine_def)

lemma crawl_distinct:
  assumes "crawl env \<lparr>pages = [], links = []\<rparr> = Inr c"
  shows "distinct (map fst (pages c))"
proof (cases "listdir env")
  case (Inl err)
  then show ?thesis using assms by (simp add: crawl_def)
next
  case (Inr names)
  then show ?thesis
    using assms crawl_loop_distinct [of env _ _ "{}" "\<lparr>pages = [], links = []\<rparr>" c]
    by (simp add: crawl_def Let_def)
qed

lemma build_index_result:
  assumes b: "build_index env (init_engine mode) = Inr e"
  shows "\<exists>c e'. crawl env \<lparr>pages = [], links = []\<rparr> = Inr c \<and>
           pages_effect (pages c)
             ((init_engine mode)\<lparr>crawler := c, incoming_links := count_incoming (links c) []\<rparr>) e' \<and>
           e = e'\<lparr>trie := fill_trie (word_to_index e') (TrieNode [] None)\<rparr>"
proof (cases "crawl env \<lparr>pages = [], links = []\<rparr>")
  case (Inl err)
  then show ?thesis using b by (simp add: build_index_def init_engine_def)
next
  case (Inr c)
  let ?e0 = "(init_engine mode)\<lparr>crawler := c, incoming_links := count_incoming (links c) []\<rparr>"
  have inv0: "index_inv ?e0"
    using index_inv_init [of mode] by (simp add: index_inv_def)
  from index_pages_loop [OF inv0 crawl_distinct [OF Inr]]
  obtain e' where e': "for_each index_page (pages c) ?e0 = Inr e'" "pages_effect (pages c) ?e0 e'"
    by blast
  have tr: "trie e' = TrieNode [] None"
    using pages_effectD(2) [OF e'(2)] by (simp add: index_frame_def init_engine_def)
  have "e = e'\<lparr>trie := fill_trie (word_to_index e') (TrieNode [] None)\<rparr>"
    using b Inr e'(1) tr by (simp add: build_index_def init_engine_def)
  with Inr e'(2) show ?thesis by blast
qed

lemma build_index_ok:
  assumes b: "build_index env (init_engine mode) = Inr e"
  shows "index_ok e"
proof -
  from build_index_result [OF b] obtain c e' where
    c: "crawl env \<lparr>pages = [], links = []\<rparr> = Inr c" and
    eff: "pages_effect (pages c)
            ((init_engine mode)\<lparr>crawler := c, incoming_links := count_incoming (links c) []\<rparr>) e'" and
    e: "e = e'\<lparr>trie := fill_trie (word_to_index e') (TrieNode [] None)\<rparr>"
    by blast
  let ?e0 = "(init_engine mode)\<lparr>crawler := c, incoming_links := count_incoming (links c) []\<rparr>"
  note E = pages_effectD [OF eff]
  have fr: "crawler e' = c" "incoming_links e' = count_incoming (links c) []"
    using E(2) by (simp_all add: index_frame_def)
  have fr0: "freq_of ?e0 w f = None" for w f
    by (simp add: freq_of_def init_engine_def)
  have same: "freq_of e = freq_of e'" "index_inv e = index_inv e'"
    by (simp_all add: e freq_of_def index_inv_def fun_eq_iff split: option.splits)
  have fe: "crawler e = c" "incoming_links e = count_incoming (links c) []"
    "word_to_index e = word_to_index e'" "document_lengths e = document_lengths e'"
    "trie e = fill_trie (word_to_index e') (TrieNode [] None)"
    by (simp_all add: e fr)
  have fq: "freq_of e w f = freq_of e' w f" for w f
    by (simp add: same(1))
  show ?thesis
    unfolding index_ok_def
  proof (intro conjI allI)
    show "index_inv e" using E(1) same(2) by simp
    show "distinct (map fst (pages (crawler e)))"
      using crawl_distinct [OF c] by (simp add: fe)
    show "trie_search (trie e) w = map_of (word_to_index e) w" for w
      by (simp add: fe trie_search_fill [OF index_inv_keys [OF E(1)]] trie_search_empty
               split: option.splits)
    show "freq_of e w f =
        (case map_of (pages (crawler e)) f of None \<Rightarrow> None | Some pg \<Rightarrow> page_freq pg w)" for w f
      by (simp add: fq E(5) fr0 fe split: option.splits)
    show "map_of (document_lengths e) f =
        (case map_of (pages (crawler e)) f of None \<Rightarrow> None | Some pg \<Rightarrow> Some (length (words pg)))" for f
      by (simp add: fe E(3) init_engine_def split: option.splits)
    show "fst ` set (word_to_index e) = (\<Union>p \<in> set (pages (crawler e)). set (words (snd p)))"
      by (simp add: fe E(4) init_engine_def)
    show "inbound (incoming_links e) d = edges_into (links (crawler e)) d" for d
      by (simp add: fe inbound_def map_of_count_incoming)
  qed
qed

subsection \<open>Posting lists of a built index\<close>

lemma posting_lookup:
  assumes ok: "index_ok e" and t: "trie_search (trie e) t = Some idx"
  shows "idx < length (inverted_index e)"
    and "distinct (map fst (inverted_index e ! idx))"
    and "map_of (inverted_index e ! idx) f =
           (case map_of (pages (crawler e)) f of None \<Rightarrow> None | Some pg \<Rightarrow> page_freq pg t)"
proof -
  have w: "map_of (word_to_index e) t = Some idx"
    using index_okD(3) [OF ok, of t] t by simp
  show b: "idx < length (inverted_index e)"
    using index_inv_bound [OF index_okD(1) [OF ok] w] .
  show "distinct (map fst (inverted_index e ! idx))"
    using index_inv_distinct [OF index_okD(1) [OF ok] nth_mem [OF b]] .
  show "map_of (inverted_index e ! idx) f =
           (case map_of (pages (crawler e)) f of None \<Rightarrow> None | Some pg \<Rightarrow> page_freq pg t)"
    using index_okD(4) [OF ok, of t f] w by (simp add: freq_of_def)
qed

lemma posting_keys:
  assumes ok: "index_ok e" and t: "trie_search (trie e) t = Some idx"
  shows "fst ` set (inverted_index e ! idx) =
           fst ` set (filter (\<lambda>p. t \<in> set (words (snd p))) (pages (crawler e)))"
proof -
  have d: "distinct (map fst (pages (crawler e)))"
    using index_okD(2) [OF ok] .
  have "f \<in> fst ` set (inverted_index e ! idx) \<longleftrightarrow>
        f \<in> fst ` set (filter (\<lambda>p. t \<in> set (words (snd p))) (pages (crawler e)))" for f
  proof -
    have "f \<in> fst ` set (inverted_index e ! idx) \<longleftrightarrow> map_of (inverted_index e ! idx) f \<noteq> None"
      by (simp add: map_of_eq_None_iff)
    also have "\<dots> \<longleftrightarrow> (\<exists>pg. map_of (pages (crawler e)) f = Some pg \<and> t \<in> set (words pg))"
      by (simp add: posting_lookup(3) [OF ok t] page_freq_def split: option.splits)
    also have "\<dots> \<longleftrightarrow> (\<exists>pg. (f, pg) \<in> set (pages (crawler e)) \<and> t \<in> set (words pg))"
      using d by simp
    also have "\<dots> \<longleftrightarrow> f \<in> fst ` set (filter (\<lambda>p. t \<in> set (words (snd p))) (pages (crawler e)))"
      by force
    finally show ?thesis .
  qed
  then show ?thesis by blast
qed

lemma posting_length:
  assumes ok: "index_ok e" and t: "trie_search (trie e) t = Some idx"
  shows "length (inverted_index e ! idx) = doc_freq (crawler e) t"
proof -
  let ?hits = "filter (\<lambda>p. t \<in> set (words (snd p))) (pages (crawler e))"
  have d: "distinct (map fst ?hits)"
    using index_okD(2) [OF ok] by (rule distinct_map_filter)
  have "length (inverted_index e ! idx) = card (fst ` set (inverted_index e ! idx))"
    using distinct_card [OF posting_lookup(2) [OF ok t]] by simp
  also have "\<dots> = card (fst ` set ?hits)"
    by (simp only: posting_keys [OF ok t])
  also have "\<dots> = length ?hits"
    using distinct_card [OF d] by simp
  finally show ?thesis by (simp add: doc_freq_def)
qed

lemma posting_nonempty:
  assumes ok: "index_ok e" and t: "trie_search (trie e) t = Some idx"
  shows "1 \<le> doc_freq (crawler e) t"
proof -
  have "map_of (word_to_index e) t = Some idx"
    using index_okD(3) [OF ok, of t] t by simp
  then have "t \<in> fst ` set (word_to_index e)"
    by (metis domI dom_map_of_conv_image_fst)
  then obtain p where "p \<in> set (pages (crawler e))" "t \<in> set (words (snd p))"
    unfolding index_okD(6) [OF ok] by blast
  then have "filter (\<lambda>p. t \<in> set (words (snd p))) (pages (crawler e)) \<noteq> []"
    by (auto simp: filter_empty_conv)
  then show ?thesis
    by (simp add: doc_freq_def Suc_le_eq)
qed

lemma doc_freq_le: "doc_freq c t \<le> length (pages c)"
  by (simp add: doc_freq_def)

lemma posting_doc:
  assumes ok: "index_ok e" and t: "trie_search (trie e) t = Some idx"
    and doc: "doc \<in> fst ` set (inverted_index e ! idx)"
  shows "\<exists>pg. map_of (pages (crawler e)) doc = Some pg \<and> t \<in> set (words pg) \<and>
              map_of (inverted_index e ! idx) doc = Some (count_list (words pg) t) \<and>
              map_of (document_lengths e) doc = Some (length (words pg))"
proof -
  have "map_of (inverted_index e ! idx) doc \<noteq> None"
    using doc by (simp add: map_of_eq_None_iff)
  then obtain pg where pg: "map_of (pages (crawler e)) doc = Some pg" "t \<in> set (words pg)"
    by (auto simp: posting_lookup(3) [OF ok t] page_freq_def split: option.splits if_splits)
  then show ?thesis
    by (simp add: posting_lookup(3) [OF ok t] page_freq_def index_okD(5) [OF ok])
qed

subsection \<open>The demonstration collection\<close>

lemma demo_crawl: "crawl demo_env \<lparr>pages = [], links = []\<rparr> = Inr demo_crawler"
  by code_simp

lemma demo_build: "build_index demo_env (init_engine ''tf-idf'') = Inr demo_engine"
  by code_simp

section \<open>Scoring arithmetic\<close>

lemma smoothed_idf_pos:
  assumes "df \<le> N"
  shows "0 < ln ((1 + real N) / (1 + real df)) + 1"
proof -
  have "1 \<le> (1 + real N) / (1 + real df)"
    using assms by (simp add: field_simps)
  then have "0 \<le> ln ((1 + real N) / (1 + real df))"
    by simp
  then show ?thesis by linarith
qed

text \<open>
  Claim C5. Take an engine as \<open>build_index\<close> leaves it, in TF-IDF mode, and a term \<open>t\<close> that
  the trie knows, at position \<open>idx\<close>. With \<open>df\<close> the length of the posting list at \<open>idx\<close>
  and \<open>N\<close> the number of crawled pages, exactly as \<open>search\<close> computes them,
  \<open>1 \<le> df \<le> N\<close> and the smoothed IDF \<open>ln((1 + N) / (1 + df)) + 1\<close> is strictly positive.
  For every document of that posting list, \<open>compute_score\<close> returns a score at every raw
  frequency (the document's length is fixed by the index), and that score is strictly
  increasing in the raw frequency.
\<close>

theorem tfidf_idf_positive_and_monotone:
  assumes built: "build_index env (init_engine mode) = Inr e"
    and tfidf: "ranking_mode e \<noteq> ''simple''"
    and t: "trie_search (trie e) t = Some idx"
    and doc: "doc \<in> fst ` set (inverted_index e ! idx)"
    and freq: "freq1 < freq2"
  shows "1 \<le> length (inverted_index e ! idx) \<and>
         length (inverted_index e ! idx) \<le> length (pages (crawler e)) \<and>
         0 < ln ((1 + real (length (pages (crawler e)))) /
                 (1 + real (length (inverted_index e ! idx)))) + 1 \<and>
         (\<exists>s1 s2. compute_score e t doc freq1 (length (pages (crawler e)))
                     (length (inverted_index e ! idx)) = Inr s1 \<and>
                  compute_score e t doc freq2 (length (pages (crawler e)))
                     (length (inverted_index e ! idx)) = Inr s2 \<and> s1 < s2)"
proof -
  let ?N = "length (pages (crawler e))" and ?df = "length (inverted_index e ! idx)"
  have ok: "index_ok e"
    using built by (rule build_index_ok)
  have df: "?df = doc_freq (crawler e) t"
    using ok t by (rule posting_length)
  have lo: "1 \<le> ?df"
    using posting_nonempty [OF ok t] df by simp
  have hi: "?df \<le> ?N"
    using doc_freq_le [of "crawler e" t] df by simp
  have idf: "0 < ln ((1 + real ?N) / (1 + real ?df)) + 1"
    using hi by (rule smoothed_idf_pos)
  from posting_doc [OF ok t doc] obtain pg :: page where
    pg: "t \<in> set (words pg)" "map_of (document_lengths e) doc = Some (length (words pg))"
    by blast
  have L: "0 < length (words pg)"
    using pg(1) by (cases "words pg") simp_all
  have tf: "real freq1 / real (length (words pg)) < real freq2 / real (length (words pg))"
    using freq L by (simp add: divide_strict_right_mono)
  have mono: "real freq1 / real (length (words pg)) * (ln ((1 + real ?N) / (1 + real ?df)) + 1)
      < real freq2 / real (length (words pg)) * (ln ((1 + real ?N) / (1 + real ?df)) + 1)"
    using tf idf by (rule mult_strict_right_mono)
  have sc: "compute_score e t doc f ?N ?df =
      Inr (real f / real (length (words pg)) * (ln ((1 + real ?N) / (1 + real ?df)) + 1))" for f
    using tfidf pg(2) L by (simp add: compute_score_def)
  show ?thesis
    using lo hi idf mono by (simp add: sc)
qed

theorem tfidf_idf_positive_and_monotone_witness:
  "1 \<le> length (inverted_index demo_engine ! 0) \<and>
   length (inverted_index demo_engine ! 0) \<le> length (pages (crawler demo_engine)) \<and>
   0 < ln ((1 + real (length (pages (crawler demo_engine)))) /
           (1 + real (length (inverted_index demo_engine ! 0)))) + 1 \<and>
   (\<exists>s1 s2. compute_score demo_engine ''ant'' ''a.html'' 1 (length (pages (crawler demo_engine)))
               (length (inverted_index demo_engine ! 0)) = Inr s1 \<and>
            compute_score demo_engine ''ant'' ''a.html'' 2 (length (pages (crawler demo_engine)))
               (length (inverted_index demo_engine ! 0)) = Inr s2 \<and> s1 < s2)"
  using tfidf_idf_positive_and_monotone
          [OF demo_build, of "''ant''" 0 "''a.html''" 1 2]
  by (simp add: demo_engine_def demo_crawler_def demo_trie_def)

section \<open>The crawl and the built index\<close>

lemma build_index_fields:
  assumes b: "build_index env (init_engine mode) = Inr e"
  shows "crawl env \<lparr>pages = [], links = []\<rparr> = Inr (crawler e)"
    and "incoming_links e = count_incoming (links (crawler e)) []"
    and "ranking_mode e = mode"
proof -
  from build_index_result [OF b] obtain c e' where
    c: "crawl env \<lparr>pages = [], links = []\<rparr> = Inr c" and
    eff: "pages_effect (pages c)
            ((init_engine mode)\<lparr>crawler := c, incoming_links := count_incoming (links c) []\<rparr>) e'" and
    e: "e = e'\<lparr>trie := fill_trie (word_to_index e') (TrieNode [] None)\<rparr>"
    by blast
  have fr: "crawler e' = c" "incoming_links e' = count_incoming (links c) []" "ranking_mode e' = mode"
    using pages_effectD(2) [OF eff] by (simp_all add: index_frame_def init_engine_def)
  show "crawl env \<lparr>pages = [], links = []\<rparr> = Inr (crawler e)"
    using c by (simp add: e fr)
  show "incoming_links e = count_incoming (links (crawler e)) []"
    by (simp add: e fr)
  show "ranking_mode e = mode"
    by (simp add: e fr)
qed

text \<open>
  Claim C9. When \<open>crawl\<close> completes on a fresh crawler, the recorded pages are exactly the
  names of the directory listing that end in \<open>.html\<close> and can be read; each is recorded
  once. The links of the pages (\<open>soup_hrefs\<close>) do not occur in this description: following
  them adds no page and loses none.
\<close>

theorem crawl_pages_exactly_readable:
  assumes ls: "listdir env = Inr names"
    and cr: "crawl env \<lparr>pages = [], links = []\<rparr> = Inr c"
  shows "fst ` set (pages c) = {f \<in> set names. endswith f ''.html'' \<and> read_file env f \<noteq> None} \<and>
         distinct (map fst (pages c))"
proof -
  let ?all = "filter (\<lambda>f. endswith f ''.html'') names"
  have loop: "crawl_loop env ?all ?all {} \<lparr>pages = [], links = []\<rparr> = Inr c"
    using cr ls by (simp add: crawl_def Let_def)
  have "fst ` set (pages c) =
      fst ` set (pages \<lparr>pages = [], links = []\<rparr>) \<union> {f \<in> set ?all - {}. read_file env f \<noteq> None}"
    using loop by (rule crawl_loop_pages) simp_all
  then have "fst ` set (pages c) = {f \<in> set names. endswith f ''.html'' \<and> read_file env f \<noteq> None}"
    by auto
  then show ?thesis
    using crawl_distinct [OF cr] by simp
qed

theorem crawl_pages_exactly_readable_witness:
  "fst ` set (pages demo_crawler) =
     {f \<in> set [''a.html'', ''b.html'', ''notes.txt'', ''c.html'', ''d.html''].
        endswith f ''.html'' \<and> read_file demo_env f \<noteq> None} \<and>
   distinct (map fst (pages demo_crawler))"
  using crawl_pages_exactly_readable
          [of demo_env "[''a.html'', ''b.html'', ''notes.txt'', ''c.html'', ''d.html'']" demo_crawler]
        demo_crawl
  by (simp add: demo_env_def)

text \<open>
  Claim C6. As \<open>build_index\<close> leaves the engine, \<open>incoming_links\<close> has an entry for \<open>d\<close>
  exactly when the crawler's link table holds an edge into \<open>d\<close>, and the entry is the
  number of those edges: a link repeated in one source counts each time, and \<open>d\<close> need
  not be a crawled page.
\<close>

theorem incoming_links_count_edges:
  assumes b: "build_index env (init_engine mode) = Inr e"
  shows "map_of (incoming_links e) d =
           (if edges_into (links (crawler e)) d = 0 then None
            else Some (edges_into (links (crawler e)) d))"
  by (simp add: build_index_fields(2) [OF b] map_of_count_incoming inbound_def)

theorem incoming_links_count_edges_witness:
  "map_of (incoming_links demo_engine) ''b.html'' =
     (if edges_into (links (crawler demo_engine)) ''b.html'' = 0 then None
      else Some (edges_into (links (crawler demo_engine)) ''b.html'')) \<and>
   map_of (incoming_links demo_engine) ''b.html'' = Some 2 \<and>
   map_of (incoming_links demo_engine) ''x.html'' = Some 1 \<and>
   map_of (pages (crawler demo_engine)) ''x.html'' = None"
  using incoming_links_count_edges [OF demo_build, of "''b.html''"]
  by (simp add: demo_engine_def demo_crawler_def)

text \<open>
  Claim C7. As \<open>build_index\<close> leaves the engine, every term \<open>t\<close> of a crawled page is found
  by the trie at a position \<open>idx\<close> that is within \<open>inverted_index\<close> and that no other term
  shares; there are as many posting lists as distinct terms in the crawled pages. The
  posting list at \<open>idx\<close> is not empty, has each document once, and maps a document to the
  raw count of \<open>t\<close> in it exactly when the document is a crawled page containing \<open>t\<close>.
\<close>

theorem posting_list_of_indexed_term:
  assumes b: "build_index env (init_engine mode) = Inr e"
    and p: "p \<in> set (pages (crawler e))" and t: "t \<in> set (words (snd p))"
  shows "\<exists>idx. trie_search (trie e) t = Some idx \<and> idx < length (inverted_index e) \<and>
           (\<forall>t'. trie_search (trie e) t' = Some idx \<longrightarrow> t' = t) \<and>
           length (inverted_index e) = card (\<Union>p \<in> set (pages (crawler e)). set (words (snd p))) \<and>
           inverted_index e ! idx \<noteq> [] \<and> distinct (map fst (inverted_index e ! idx)) \<and>
           (\<forall>f. map_of (inverted_index e ! idx) f =
              (case map_of (pages (crawler e)) f of None \<Rightarrow> None | Some pg \<Rightarrow> page_freq pg t))"
proof -
  have ok: "index_ok e"
    using b by (rule build_index_ok)
  note inv = index_okD(1) [OF ok]
  have "t \<in> fst ` set (word_to_index e)"
    unfolding index_okD(6) [OF ok] using p t by blast
  then obtain idx where w: "map_of (word_to_index e) t = Some idx"
    by (metis domD dom_map_of_conv_image_fst)
  have s: "trie_search (trie e) t = Some idx"
    using w by (simp add: index_okD(3) [OF ok])
  have uniq: "t' = t" if "trie_search (trie e) t' = Some idx" for t'
    using that index_inv_inj [OF inv _ w, of t'] by (simp add: index_okD(3) [OF ok])
  have "length (inverted_index e) = length (map fst (word_to_index e))"
    using inv by (simp add: index_inv_def)
  also have "\<dots> = card (set (map fst (word_to_index e)))"
    using distinct_card [OF index_inv_keys [OF inv]] by simp
  also have "\<dots> = card (\<Union>p \<in> set (pages (crawler e)). set (words (snd p)))"
    using index_okD(6) [OF ok] by simp
  finally have len: "length (inverted_index e) = card (\<Union>p \<in> set (pages (crawler e)). set (words (snd p)))" .
  have ne: "inverted_index e ! idx \<noteq> []"
    using posting_nonempty [OF ok s] posting_length [OF ok s] by auto
  show ?thesis
    using s posting_lookup [OF ok s] uniq len ne by blast
qed

theorem posting_list_of_indexed_term_witness:
  "\<exists>idx. trie_search (trie demo_engine) ''bee'' = Some idx \<and> idx < length (inverted_index demo_engine) \<and>
     (\<forall>t'. trie_search (trie demo_engine) t' = Some idx \<longrightarrow> t' = ''bee'') \<and>
     length (inverted_index demo_engine) =
       card (\<Union>p \<in> set (pages (crawler demo_engine)). set (words (snd p))) \<and>
     inverted_index demo_engine ! idx \<noteq> [] \<and> distinct (map fst (inverted_index demo_engine ! idx)) \<and>
     (\<forall>f. map_of (inverted_index demo_engine ! idx) f =
        (case map_of (pages (crawler demo_engine)) f of None \<Rightarrow> None | Some pg \<Rightarrow> page_freq pg ''bee''))"
  using posting_list_of_indexed_term
          [OF demo_build, of "(''a.html'', \<lparr>title = ''Ants'', words = [''ant'', ''ant'', ''bee'']\<rparr>)" "''bee''"]
  by (simp add: demo_engine_def demo_crawler_def)

end
